theory Spec2Isabelle
  imports Main
begin

section \<open>Strings\<close>

text \<open>
  A Python \<open>str\<close> is modelled as a \<open>string\<close>: a list of 8-bit characters, read as the code
  points 0 to 255 (Latin-1).  The functions below are the \<open>str\<close> methods and operators that
  \<open>src/xray.py\<close> calls.
\<close>

text \<open>\<open>str.lower()\<close>, one character: A to Z and the Latin-1 capitals map to the letter 32 above.\<close>

definition lower_chr :: "char \<Rightarrow> char" where
  "lower_chr c =
     (let n = (of_char c :: nat)
      in if (65 \<le> n \<and> n \<le> 90) \<or> (192 \<le> n \<and> n \<le> 222 \<and> n \<noteq> 215)
         then char_of (n + 32) else c)"

definition lower :: "string \<Rightarrow> string" where
  "lower s = map lower_chr s"

text \<open>\<open>s.startswith(p)\<close> and \<open>s.endswith(suf)\<close>.\<close>

fun startswith :: "string \<Rightarrow> string \<Rightarrow> bool" where
  "startswith s [] = True"
| "startswith [] (p # ps) = False"
| "startswith (c # cs) (p # ps) = (c = p \<and> startswith cs ps)"

definition endswith :: "string \<Rightarrow> string \<Rightarrow> bool" where
  "endswith s suf = startswith (rev s) (rev suf)"

text \<open>\<open>sub in s\<close>: \<open>sub\<close> occurs in \<open>s\<close> as a contiguous substring.\<close>

fun contains :: "string \<Rightarrow> string \<Rightarrow> bool" where
  "contains sub [] = (sub = [])"
| "contains sub (c # cs) = (startswith (c # cs) sub \<or> contains sub cs)"

text \<open>\<open>s.split(sep)\<close> for a one-character separator: never the empty list.\<close>

fun str_split :: "char \<Rightarrow> string \<Rightarrow> string list" where
  "str_split sep [] = [[]]"
| "str_split sep (c # cs) =
     (if c = sep then [] # str_split sep cs
      else (case str_split sep cs of
              [] \<Rightarrow> [[c]]
            | w # ws \<Rightarrow> (c # w) # ws))"

text \<open>\<open>s.replace(a, b)\<close> for one-character \<open>a\<close> and \<open>b\<close>.\<close>

definition str_replace :: "char \<Rightarrow> char \<Rightarrow> string \<Rightarrow> string" where
  "str_replace a b s = map (\<lambda>c. if c = a then b else c) s"

definition newline :: char where
  "newline = CHR 0x0A"

definition slash :: char where
  "slash = CHR ''/''"

definition backslash :: char where
  "backslash = CHR 0x5C"

definition dot :: char where
  "dot = CHR ''.''"

text \<open>\<open>s.count(c, lo, hi)\<close> for a one-character \<open>c\<close>: its occurrences in the slice \<open>s[lo:hi]\<close>.\<close>

fun count_chr :: "char \<Rightarrow> string \<Rightarrow> nat" where
  "count_chr c [] = 0"
| "count_chr c (x # xs) = (if x = c then Suc (count_chr c xs) else count_chr c xs)"

definition str_count :: "string \<Rightarrow> char \<Rightarrow> nat \<Rightarrow> nat \<Rightarrow> nat" where
  "str_count s c lo hi = count_chr c (take (hi - lo) (drop lo s))"

section \<open>Regular expressions\<close>

text \<open>
  The patterns of \<open>IMPORT_PATTERNS\<close> and \<open>RISK_PATTERNS\<close> are written in the fragment of
  Python's \<open>re\<close> syntax below: literals, bracket classes with \<open>\w\<close> and \<open>\s\<close>, sequence,
  alternation, the greedy \<open>*\<close> and \<open>+\<close>, capturing groups (numbered from 0 here, left to
  right) and \<open>^\<close> without \<open>re.MULTILINE\<close>.  \<open>(?:...)\<close> groups nothing and is plain nesting.
\<close>

datatype cls_item = IWord | ISpace | IChr char

datatype regex =
    Eps
  | Bol
  | Lit char
  | Cls bool "cls_item list"
  | Seq regex regex
  | Alt regex regex
  | Star regex
  | Grp nat regex

text \<open>\<open>\w\<close> and \<open>\s\<close> on \<open>str\<close> patterns: alphanumerics and the underscore; white space.\<close>

definition is_word :: "char \<Rightarrow> bool" where
  "is_word c =
     (let n = (of_char c :: nat)
      in (48 \<le> n \<and> n \<le> 57) \<or> (65 \<le> n \<and> n \<le> 90) \<or> n = 95 \<or> (97 \<le> n \<and> n \<le> 122)
         \<or> n = 170 \<or> n = 178 \<or> n = 179 \<or> n = 181 \<or> n = 185 \<or> n = 186
         \<or> n = 188 \<or> n = 189 \<or> n = 190
         \<or> (192 \<le> n \<and> n \<noteq> 215 \<and> n \<noteq> 247))"

definition is_space :: "char \<Rightarrow> bool" where
  "is_space c =
     (let n = (of_char c :: nat)
      in (9 \<le> n \<and> n \<le> 13) \<or> (28 \<le> n \<and> n \<le> 32) \<or> n = 133 \<or> n = 160)"

text \<open>The flag \<open>ic\<close> is \<open>re.IGNORECASE\<close>.\<close>

definition chr_eq :: "bool \<Rightarrow> char \<Rightarrow> char \<Rightarrow> bool" where
  "chr_eq ic c d = (if ic then lower_chr c = lower_chr d else c = d)"

fun item_matches :: "bool \<Rightarrow> cls_item \<Rightarrow> char \<Rightarrow> bool" where
  "item_matches ic IWord d = is_word d"
| "item_matches ic ISpace d = is_space d"
| "item_matches ic (IChr c) d = chr_eq ic c d"

definition cls_matches :: "bool \<Rightarrow> bool \<Rightarrow> cls_item list \<Rightarrow> char \<Rightarrow> bool" where
  "cls_matches ic neg items d = (list_ex (\<lambda>i. item_matches ic i d) items \<noteq> neg)"

text \<open>
  A matcher state is the offset reached, the text left from there, and the text captured by
  each group so far.  \<open>rmatch\<close> lists every way a pattern matches at a state, in the order a
  backtracking matcher tries them: the head of the list is the match \<open>re\<close> reports.
  A greedy star repeats its body while the body consumes text, at most once per character left.
\<close>

type_synonym mstate = "nat \<times> string \<times> string option list"

fun star_m :: "(mstate \<Rightarrow> mstate list) \<Rightarrow> nat \<Rightarrow> mstate \<Rightarrow> mstate list" where
  "star_m f 0 st = [st]"
| "star_m f (Suc n) st =
     concat (map (\<lambda>st'. if fst st < fst st' then star_m f n st' else []) (f st)) @ [st]"

fun rmatch :: "bool \<Rightarrow> regex \<Rightarrow> mstate \<Rightarrow> mstate list" where
  "rmatch ic Eps st = [st]"
| "rmatch ic Bol (pos, rest, caps) = (if pos = 0 then [(pos, rest, caps)] else [])"
| "rmatch ic (Lit c) (pos, rest, caps) =
     (case rest of
        [] \<Rightarrow> []
      | d # ds \<Rightarrow> if chr_eq ic c d then [(Suc pos, ds, caps)] else [])"
| "rmatch ic (Cls neg items) (pos, rest, caps) =
     (case rest of
        [] \<Rightarrow> []
      | d # ds \<Rightarrow> if cls_matches ic neg items d then [(Suc pos, ds, caps)] else [])"
| "rmatch ic (Seq a b) st = concat (map (rmatch ic b) (rmatch ic a st))"
| "rmatch ic (Alt a b) st = rmatch ic a st @ rmatch ic b st"
| "rmatch ic (Star r) (pos, rest, caps) =
     star_m (rmatch ic r) (length rest) (pos, rest, caps)"
| "rmatch ic (Grp g r) (pos, rest, caps) =
     map (\<lambda>(pos', rest', caps'). (pos', rest', caps'[g := Some (take (pos' - pos) rest)]))
         (rmatch ic r (pos, rest, caps))"

fun ngroups :: "regex \<Rightarrow> nat" where
  "ngroups (Seq a b) = ngroups a + ngroups b"
| "ngroups (Alt a b) = ngroups a + ngroups b"
| "ngroups (Star r) = ngroups r"
| "ngroups (Grp g r) = Suc (ngroups r)"
| "ngroups r = 0"

text \<open>A match object: \<open>m.start()\<close>, \<open>m.end()\<close> and the groups (\<open>None\<close> for one that took no part).\<close>

record rmatch_obj =
  m_start :: nat
  m_end :: nat
  m_groups :: "string option list"

definition match_at :: "bool \<Rightarrow> regex \<Rightarrow> string \<Rightarrow> nat \<Rightarrow> rmatch_obj option" where
  "match_at ic re s pos =
     (case rmatch ic re (pos, drop pos s, replicate (ngroups re) None) of
        [] \<Rightarrow> None
      | (e, rest, caps) # alternatives \<Rightarrow> Some \<lparr>m_start = pos, m_end = e, m_groups = caps\<rparr>)"

text \<open>
  \<open>re.finditer\<close>: the non-overlapping matches, scanning the offsets left to right; after a
  match the scan goes on at its end (one further after an empty match).
\<close>

fun scan_from :: "bool \<Rightarrow> regex \<Rightarrow> string \<Rightarrow> nat \<Rightarrow> nat list \<Rightarrow> rmatch_obj list" where
  "scan_from ic re s lo [] = []"
| "scan_from ic re s lo (p # ps) =
     (if p < lo then scan_from ic re s lo ps
      else (case match_at ic re s p of
              None \<Rightarrow> scan_from ic re s lo ps
            | Some m \<Rightarrow> m # scan_from ic re s (if p < m_end m then m_end m else Suc p) ps))"

definition finditer :: "bool \<Rightarrow> regex \<Rightarrow> string \<Rightarrow> rmatch_obj list" where
  "finditer ic re s = scan_from ic re s 0 [0..<Suc (length s)]"

text \<open>
  \<open>re.findall\<close> returns, per match, the whole match when the pattern has no group, the
  text of the group when it has exactly one (both a \<open>str\<close>), and the tuple of the groups'
  texts when it has more; a group that took no part reads as the empty string.
\<close>

datatype findall_item = Str string | Tup "string list"

definition group_text :: "string option \<Rightarrow> string" where
  "group_text g = (case g of None \<Rightarrow> [] | Some t \<Rightarrow> t)"

definition findall_item_of :: "string \<Rightarrow> rmatch_obj \<Rightarrow> findall_item" where
  "findall_item_of s m =
     (case m_groups m of
        [] \<Rightarrow> Str (take (m_end m - m_start m) (drop (m_start m) s))
      | [g] \<Rightarrow> Str (group_text g)
      | g # g' # gs \<Rightarrow> Tup (map group_text (g # g' # gs)))"

definition findall :: "regex \<Rightarrow> string \<Rightarrow> findall_item list" where
  "findall re s = map (findall_item_of s) (finditer False re s)"

text \<open>Iterating a \<open>str\<close> yields its characters as one-character strings; a tuple, its items.\<close>

fun py_iter :: "findall_item \<Rightarrow> string list" where
  "py_iter (Str s) = map (\<lambda>c. [c]) s"
| "py_iter (Tup gs) = gs"

subsection \<open>Pattern notation\<close>

definition lits :: "string \<Rightarrow> regex" where
  "lits s = foldr (\<lambda>c r. Seq (Lit c) r) s Eps"

definition seqs :: "regex list \<Rightarrow> regex" where
  "seqs rs = foldr Seq rs Eps"

definition alts :: "regex \<Rightarrow> regex list \<Rightarrow> regex" where
  "alts r rs = foldl Alt r rs"

definition plus_re :: "regex \<Rightarrow> regex" where
  "plus_re r = Seq r (Star r)"

text \<open>\<open>\s\<close>, \<open>['"]\<close>, \<open>[^'"]\<close> and \<open>[\w\.]\<close>.\<close>

definition re_space :: regex where
  "re_space = Cls False [ISpace]"

definition re_quote :: regex where
  "re_quote = Cls False [IChr (CHR 0x27), IChr (CHR 0x22)]"

definition re_not_quote :: regex where
  "re_not_quote = Cls True [IChr (CHR 0x27), IChr (CHR 0x22)]"

definition re_dotted :: regex where
  "re_dotted = Cls False [IWord, IChr CHR ''.'']"

section \<open>Configuration and pattern tables\<close>

definition TEXT_EXTENSIONS :: "string list" where
  "TEXT_EXTENSIONS =
     [''.ts'', ''.js'', ''.py'', ''.java'', ''.groovy'', ''.gradle'', ''.tsx'', ''.jsx'', ''.sh'',
      ''.yml'', ''.yaml'', ''.json'', ''.md'', ''.txt'', ''.xml'', ''.dockerfile'',
      ''.properties'', ''.cs'', ''.go'', ''.rb'', ''.php'', ''.rs'', ''.tf'']"

definition IGNORED :: "string list" where
  "IGNORED =
     [''node_modules'', ''.git'', ''venv'', ''dist'', ''bin'', ''obj'', ''.idea'', ''target'',
      ''.vscode'']"

text \<open>
  The ECMAScript pattern, used for both \<open>ts\<close> and \<open>js\<close>:
  \<^verbatim>\<open>(?:import|export)\s+(?:[\w\s{},*]+)\s+from\s+['"]([^'"]+)['"]|require\(['"]([^'"]+)['"]\)\<close>
\<close>

definition re_ecma :: regex where
  "re_ecma =
     Alt (seqs [Alt (lits ''import'') (lits ''export''),
                plus_re re_space,
                plus_re (Cls False [IWord, ISpace, IChr CHR ''{'', IChr CHR ''}'',
                                    IChr CHR '','', IChr CHR ''*'']),
                plus_re re_space,
                lits ''from'',
                plus_re re_space,
                re_quote, Grp 0 (plus_re re_not_quote), re_quote])
         (seqs [lits ''require('',
                re_quote, Grp 1 (plus_re re_not_quote), re_quote,
                Lit CHR '')''])"

text \<open>\<^verbatim>\<open>^(?:from|import)\s+([\w\.]+)\<close>\<close>

definition re_py :: regex where
  "re_py =
     seqs [Bol, Alt (lits ''from'') (lits ''import''), plus_re re_space,
           Grp 0 (plus_re re_dotted)]"

text \<open>\<^verbatim>\<open>^import\s+([\w\.]+);\<close>\<close>

definition re_java :: regex where
  "re_java =
     seqs [Bol, lits ''import'', plus_re re_space, Grp 0 (plus_re re_dotted), Lit CHR '';'']"

text \<open>\<^verbatim>\<open>^import\s+([\w\.]+)\<close>\<close>

definition re_groovy :: regex where
  "re_groovy = seqs [Bol, lits ''import'', plus_re re_space, Grp 0 (plus_re re_dotted)]"

definition IMPORT_PATTERNS :: "(string \<times> regex) list" where
  "IMPORT_PATTERNS =
     [(''ts'', re_ecma), (''js'', re_ecma), (''py'', re_py), (''java'', re_java),
      (''groovy'', re_groovy)]"

text \<open>The tail shared by the two credential patterns: \<^verbatim>\<open>\s*=\s*["'][^"']+["']\<close>\<close>

definition re_assigned :: regex where
  "re_assigned =
     seqs [Star re_space, Lit CHR ''='', Star re_space,
           re_quote, plus_re re_not_quote, re_quote]"

text \<open>\<^verbatim>\<open>(password|passwd|pwd)\s*=\s*["'][^"']+["']\<close>\<close>

definition re_password :: regex where
  "re_password =
     Seq (Grp 0 (alts (lits ''password'') [lits ''passwd'', lits ''pwd''])) re_assigned"

text \<open>\<^verbatim>\<open>(api_key|secret|token)\s*=\s*["'][^"']+["']\<close>\<close>

definition re_secret :: regex where
  "re_secret =
     Seq (Grp 0 (alts (lits ''api_key'') [lits ''secret'', lits ''token''])) re_assigned"

text \<open>\<^verbatim>\<open>(time\.sleep|Thread\.sleep|await\s+page\.waitForTimeout|WebUI\.delay)\<close>\<close>

definition re_sleep :: regex where
  "re_sleep =
     Grp 0 (alts (lits ''time.sleep'')
                 [lits ''Thread.sleep'',
                  seqs [lits ''await'', plus_re re_space, lits ''page.waitForTimeout''],
                  lits ''WebUI.delay''])"

text \<open>\<^verbatim>\<open>(console\.log|System\.out\.print|print\(|println)\<close>\<close>

definition re_console :: regex where
  "re_console =
     Grp 0 (alts (lits ''console.log'')
                 [lits ''System.out.print'', lits ''print('', lits ''println''])"

text \<open>
  The risk catalogue.  The display names of the four categories start with a pictograph
  and are kept as constructors: "Hardcoded Password", "API Key / Secret", "Hardcoded Sleep"
  and "Console Log".  The severities are the strings "Low", "Medium", "High", "Critical".
\<close>

datatype risk_category = HardcodedPassword | ApiKeySecret | HardcodedSleep | ConsoleLog

datatype severity = Low | Medium | High | Critical

definition RISK_PATTERNS :: "(risk_category \<times> regex \<times> severity \<times> string) list" where
  "RISK_PATTERNS =
     [(HardcodedPassword, re_password, High, ''Move to environment variables.''),
      (ApiKeySecret, re_secret, Critical, ''Revoke and use a Vault.''),
      (HardcodedSleep, re_sleep, Medium, ''Use explicit waits.''),
      (ConsoleLog, re_console, Low, ''Use a Logger.'')]"

section \<open>The per-file analysis\<close>

text \<open>
  The purpose tags of \<open>get_file_purpose\<close>, in the order of its rules; each is a fixed
  display string in the source (a pictograph and a label such as "Node.js Dependencies").
\<close>

datatype purpose =
    NodeJsDependencies | MavenBuildConfig | GradleBuildConfig | PythonDependencies
  | DockerServices | ContainerDefinition | JenkinsPipeline | PlaywrightConfig
  | CypressConfig | ProjectDocumentation | EnvironmentConfig | GitIgnore | TestScript
  | JavaSource | PythonSource | JsTsSource | KatalonScript | CSharpSource | SourceFile

definition get_file_purpose :: "string \<Rightarrow> string \<Rightarrow> purpose" where
  "get_file_purpose filename content =
     (let name = lower filename
      in if contains ''package.json'' name then NodeJsDependencies
         else if contains ''pom.xml'' name then MavenBuildConfig
         else if contains ''build.gradle'' name then GradleBuildConfig
         else if contains ''requirements.txt'' name then PythonDependencies
         else if contains ''docker-compose'' name then DockerServices
         else if contains ''dockerfile'' name then ContainerDefinition
         else if contains ''jenkinsfile'' name then JenkinsPipeline
         else if contains ''playwright.config'' name then PlaywrightConfig
         else if contains ''cypress.config'' name then CypressConfig
         else if contains ''readme.md'' name then ProjectDocumentation
         else if contains ''.env'' name then EnvironmentConfig
         else if contains ''.gitignore'' name then GitIgnore
         else if contains ''test'' name \<or> contains ''spec'' name then TestScript
         else if contains ''.java'' name then JavaSource
         else if contains ''.py'' name then PythonSource
         else if contains ''.js'' name \<or> contains ''.ts'' name then JsTsSource
         else if contains ''.groovy'' name then KatalonScript
         else if contains ''.cs'' name then CSharpSource
         else SourceFile)"

record risk_finding =
  r_type :: risk_category
  r_line :: nat
  r_severity :: severity
  r_fix :: string

record file_record =
  purpose :: purpose
  risks :: "risk_finding list"
  objectives :: "string list"
  raw_imports :: "string list"

text \<open>The body of the inner risk loop: the line number and the finding appended.\<close>

definition risk_of ::
  "string \<Rightarrow> risk_category \<Rightarrow> severity \<Rightarrow> string \<Rightarrow> rmatch_obj \<Rightarrow> risk_finding" where
  "risk_of content rname sev fx m =
     (let line = str_count content newline 0 (m_start m) + 1
      in \<lparr>r_type = rname, r_line = line, r_severity = sev, r_fix = fx\<rparr>)"

text \<open>The two nested loops over \<open>RISK_PATTERNS\<close> and over the matches of each pattern.\<close>

definition scan_risks :: "string \<Rightarrow> risk_finding list" where
  "scan_risks content =
     foldl (\<lambda>risks (rname, pat, sev, fx).
              foldl (\<lambda>risks m. risks @ [risk_of content rname sev fx m])
                    risks (finditer True pat content))
           [] RISK_PATTERNS"

definition scan_objectives :: "string \<Rightarrow> string \<Rightarrow> string list" where
  "scan_objectives f content =
     (if contains ''test'' (lower f) \<or> contains ''spec'' (lower f)
      then (if contains ''@Test'' content then [] @ [''Java/TestNG Test'']
            else if contains ''test('' content then [] @ [''JS/Playwright Test'']
            else [] @ [''Automated Script''])
      else [])"

text \<open>\<open>key\<close>: the text after the last dot of the file name (\<open>ext\<close> without its first character).\<close>

definition import_key :: "string \<Rightarrow> string" where
  "import_key f = (let ext = dot # last (str_split dot f) in drop 1 ext)"

text \<open>\<open>next((x for x in m if x), None)\<close>: the first non-empty item of the iteration.\<close>

definition first_truthy :: "findall_item \<Rightarrow> string option" where
  "first_truthy m = find (\<lambda>x. x \<noteq> []) (py_iter m)"

definition scan_imports :: "string \<Rightarrow> string \<Rightarrow> string list" where
  "scan_imports f content =
     (case map_of IMPORT_PATTERNS (import_key f) of
        None \<Rightarrow> []
      | Some pat \<Rightarrow>
          foldl (\<lambda>imports m.
                   (case first_truthy m of
                      None \<Rightarrow> imports
                    | Some imp \<Rightarrow> if imp \<noteq> [] then imports @ [imp] else imports))
                [] (findall pat content))"

definition scan_file :: "string \<Rightarrow> string \<Rightarrow> file_record" where
  "scan_file f content =
     \<lparr>purpose = get_file_purpose f content,
      risks = scan_risks content,
      objectives = scan_objectives f content,
      raw_imports = scan_imports f content\<rparr>"

section \<open>The walk over the directory tree\<close>

text \<open>
  A directory listing is a list of entries in the order \<open>os.scandir\<close> gives them: a file
  with its name and decoded text (\<open>None\<close> when opening or reading it raises), a directory
  with its name and listing, or a directory name that appears among \<open>dirs\<close> but that
  \<open>os.walk\<close> does not list (a listing that raises \<open>OSError\<close>, or a link to a directory).
\<close>

datatype fs_entry =
    File string "string option"
  | Dir string "fs_entry list"
  | DirNoList string

datatype os_error = FileNotFoundError | NotADirectoryError | PermissionError

type_synonym walk_item = "string list \<times> string list \<times> (string \<times> string option) list"

fun dir_names :: "fs_entry list \<Rightarrow> string list" where
  "dir_names [] = []"
| "dir_names (File n c # es) = dir_names es"
| "dir_names (Dir n sub # es) = n # dir_names es"
| "dir_names (DirNoList n # es) = n # dir_names es"

fun file_entries :: "fs_entry list \<Rightarrow> (string \<times> string option) list" where
  "file_entries [] = []"
| "file_entries (File n c # es) = (n, c) # file_entries es"
| "file_entries (Dir n sub # es) = file_entries es"
| "file_entries (DirNoList n # es) = file_entries es"

text \<open>
  \<open>os.walk\<close>, top down: it yields the directory (here the chain of directory names below
  the root), its \<open>dirs\<close> and its \<open>files\<close>, then walks, in order, the directories the loop
  body left in \<open>dirs\<close>.  The body assigns \<open>dirs[:] = [d for d in dirs if d not in IGNORED]\<close>
  in place; \<open>keep\<close> is that filter, and the yielded \<open>dirs\<close> is the list after the assignment.
\<close>

fun os_walk :: "(string \<Rightarrow> bool) \<Rightarrow> string list \<Rightarrow> fs_entry list \<Rightarrow> walk_item list"
  and walk_subdirs :: "(string \<Rightarrow> bool) \<Rightarrow> string list \<Rightarrow> fs_entry list \<Rightarrow> walk_item list"
  where
  "os_walk keep chain es =
     (chain, filter keep (dir_names es), file_entries es) # walk_subdirs keep chain es"
| "walk_subdirs keep chain [] = []"
| "walk_subdirs keep chain (File n c # es) = walk_subdirs keep chain es"
| "walk_subdirs keep chain (DirNoList n # es) = walk_subdirs keep chain es"
| "walk_subdirs keep chain (Dir n sub # es) =
     (if keep n then os_walk keep (chain @ [n]) sub else []) @ walk_subdirs keep chain es"

definition keep_dir :: "string \<Rightarrow> bool" where
  "keep_dir d = (d \<notin> set IGNORED)"

definition admitted :: "string \<Rightarrow> bool" where
  "admitted f = (list_ex (endswith f) TEXT_EXTENSIONS \<or> f \<in> set [''Dockerfile'', ''Jenkinsfile''])"

text \<open>
  \<open>os.path.relpath(os.path.join(root, f), root_dir).replace('\\', '/')\<close>: the directory
  names below the root and the file name, joined by the separator, backslashes replaced.
\<close>

definition rel_path :: "string list \<Rightarrow> string \<Rightarrow> string" where
  "rel_path chain f = str_replace backslash slash (concat (map (\<lambda>d. d @ [slash]) chain) @ f)"

text \<open>\<open>files_data[rel_path] = ...\<close> on a dictionary that keeps insertion order.\<close>

fun dict_set :: "('k \<times> 'v) list \<Rightarrow> 'k \<Rightarrow> 'v \<Rightarrow> ('k \<times> 'v) list" where
  "dict_set [] k v = [(k, v)]"
| "dict_set ((k', v') # kvs) k v =
     (if k' = k then (k, v) # kvs else (k', v') # dict_set kvs k v)"

text \<open>One file of one directory: admission, the read guarded by \<open>try\<close>, and the record.\<close>

definition visit_file ::
  "string list \<Rightarrow> (string \<times> file_record) list \<Rightarrow> string \<times> string option
   \<Rightarrow> (string \<times> file_record) list" where
  "visit_file chain files_data fe =
     (case fe of (f, opened) \<Rightarrow>
        if admitted f
        then (case opened of
                None \<Rightarrow> files_data
              | Some content \<Rightarrow> dict_set files_data (rel_path chain f) (scan_file f content))
        else files_data)"

definition visit_dir ::
  "(string \<times> file_record) list \<Rightarrow> walk_item \<Rightarrow> (string \<times> file_record) list" where
  "visit_dir files_data item =
     (case item of (chain, dirs, files) \<Rightarrow> foldl (visit_file chain) files_data files)"

text \<open>
  The root is either a listing or the error \<open>os.scandir(root_dir)\<close> raises; \<open>os.walk\<close> is
  called without \<open>onerror\<close>, so it drops that error and yields nothing.
\<close>

definition scan_files :: "os_error + fs_entry list \<Rightarrow> (string \<times> file_record) list" where
  "scan_files root =
     (case root of
        Inl err \<Rightarrow> []
      | Inr es \<Rightarrow> foldl visit_dir [] (os_walk keep_dir [] es))"

section \<open>The dependency graph\<close>

record graph_edge =
  e_source :: string
  e_target :: string

definition basename :: "string \<Rightarrow> string" where
  "basename p = last (str_split slash p)"

text \<open>
  The body of the inner graph loop.  \<open>used_by\<close> is a \<open>defaultdict(set)\<close>: a key is created by
  the first \<open>add\<close> under it.
\<close>

definition add_import ::
  "string \<Rightarrow> graph_edge list \<times> (string \<rightharpoonup> string set) \<Rightarrow> string
   \<Rightarrow> graph_edge list \<times> (string \<rightharpoonup> string set)" where
  "add_import src acc imp =
     (case acc of (graph_edges, used_by) \<Rightarrow>
        let tgt = last (str_split slash imp)
        in if tgt \<noteq> [] \<and> 1 < length tgt
           then (graph_edges @ [\<lparr>e_source = basename src, e_target = tgt\<rparr>],
                 used_by(tgt \<mapsto> insert src (case used_by tgt of None \<Rightarrow> {} | Some users \<Rightarrow> users)))
           else (graph_edges, used_by))"

definition build_graph ::
  "(string \<times> file_record) list \<Rightarrow> graph_edge list \<times> (string \<rightharpoonup> string set)" where
  "build_graph files_data =
     foldl (\<lambda>acc (src, data). foldl (add_import src) acc (raw_imports data))
           ([], Map.empty) files_data"

definition scan_project ::
  "os_error + fs_entry list
   \<Rightarrow> (string \<times> file_record) list \<times> graph_edge list \<times> (string \<rightharpoonup> string set)" where
  "scan_project root =
     (let files_data = scan_files root
      in (case build_graph files_data of
            (graph_edges, used_by) \<Rightarrow> (files_data, graph_edges, used_by)))"

section \<open>The specification's reading of the purpose rules\<close>

text \<open>
  The specification describes purpose assignment as an ordered list of rules, each a
  substring of the lowercased file name with a tag, read top to bottom.  The list below is
  that description, to be compared with \<open>get_file_purpose\<close>; the first four rules are the
  dependency manifests and build configurations.
\<close>

definition purpose_rules :: "(string \<times> purpose) list" where
  "purpose_rules =
     [(''package.json'', NodeJsDependencies),
      (''pom.xml'', MavenBuildConfig),
      (''build.gradle'', GradleBuildConfig),
      (''requirements.txt'', PythonDependencies),
      (''docker-compose'', DockerServices),
      (''dockerfile'', ContainerDefinition),
      (''jenkinsfile'', JenkinsPipeline),
      (''playwright.config'', PlaywrightConfig),
      (''cypress.config'', CypressConfig),
      (''readme.md'', ProjectDocumentation),
      (''.env'', EnvironmentConfig),
      (''.gitignore'', GitIgnore),
      (''test'', TestScript),
      (''spec'', TestScript),
      (''.java'', JavaSource),
      (''.py'', PythonSource),
      (''.js'', JsTsSource),
      (''.ts'', JsTsSource),
      (''.groovy'', KatalonScript),
      (''.cs'', CSharpSource)]"

definition first_rule_tag :: "string \<Rightarrow> purpose" where
  "first_rule_tag filename =
     (case find (\<lambda>(sub, tag). contains sub (lower filename)) purpose_rules of
        None \<Rightarrow> SourceFile
      | Some (sub, tag) \<Rightarrow> tag)"

definition manifest_rules :: "(string \<times> purpose) list" where
  "manifest_rules = take 4 purpose_rules"

section \<open>Notions the claims are stated with\<close>

text \<open>
  The final path segment of a string, in the specification's words: the substring after the
  last separator, or the whole string when it holds none.  A token is long when that segment
  has more than one character; \<open>edge_of\<close> is the edge such a token stands for.
\<close>

definition after_last :: "char \<Rightarrow> string \<Rightarrow> string" where
  "after_last sep s = rev (takeWhile (\<lambda>c. c \<noteq> sep) (rev s))"

definition long_token :: "string \<Rightarrow> bool" where
  "long_token imp = (1 < length (after_last slash imp))"

definition edge_of :: "string \<Rightarrow> string \<Rightarrow> graph_edge" where
  "edge_of src imp = \<lparr>e_source = after_last slash src, e_target = after_last slash imp\<rparr>"

text \<open>The number of newline characters among the first \<open>k\<close> characters of a text.\<close>

definition newlines_before :: "string \<Rightarrow> nat \<Rightarrow> nat" where
  "newlines_before s k = length (filter (\<lambda>i. s ! i = newline) [0..<k])"

text \<open>
  \<open>dir_at es chain listing\<close>: going down from the listing \<open>es\<close> through the directories named
  by \<open>chain\<close>, in order, leads to the directory whose listing is \<open>listing\<close>.  An entry of the
  scan result comes from a kept file when it is the record of an admitted, readable file of
  such a directory, with no ignored name on the chain.
\<close>

inductive dir_at :: "fs_entry list \<Rightarrow> string list \<Rightarrow> fs_entry list \<Rightarrow> bool" where
  dir_at_root: "dir_at es [] es"
| dir_at_sub: "Dir d sub \<in> set es \<Longrightarrow> dir_at sub ds listing \<Longrightarrow> dir_at es (d # ds) listing"

definition from_kept_file :: "fs_entry list \<Rightarrow> string \<times> file_record \<Rightarrow> bool" where
  "from_kept_file es entry =
     (\<exists>chain listing f content.
        dir_at es chain listing \<and> File f (Some content) \<in> set listing \<and>
        set chain \<inter> set IGNORED = {} \<and> admitted f \<and>
        entry = (rel_path chain f, scan_file f content))"

text \<open>Invariants of the walk and of the graph loops, used in the proofs below.\<close>

definition reached ::
  "(string \<Rightarrow> bool) \<Rightarrow> fs_entry list \<Rightarrow> string list \<Rightarrow> walk_item \<Rightarrow> bool" where
  "reached keep es chain item =
     (\<exists>ds listing. fst item = chain @ ds \<and> (\<forall>d \<in> set ds. keep d) \<and> dir_at es ds listing \<and>
        fst (snd item) = filter keep (dir_names listing) \<and>
        snd (snd item) = file_entries listing)"

definition targets_long :: "graph_edge list \<times> (string \<rightharpoonup> string set) \<Rightarrow> bool" where
  "targets_long acc =
     ((\<forall>e \<in> set (fst acc). 1 < length (e_target e)) \<and> (\<forall>t \<in> dom (snd acc). 1 < length t))"

section \<open>Example inputs\<close>

definition login_js :: file_record where
  "login_js =
     \<lparr>purpose = JsTsSource, risks = [], objectives = [],
      raw_imports = [''./a'', ''../utils/auth'', ''lib/'', ''../utils/auth'']\<rparr>"

definition print_then_password :: string where
  "print_then_password =
     ''print(1)'' @ [newline] @ ''password = '' @ [CHR 0x27] @ ''x'' @ [CHR 0x27]"

definition two_prints :: string where
  "two_prints = ''print(1)'' @ [newline] @ ''println''"

definition sample_tree :: "fs_entry list" where
  "sample_tree =
     [Dir ''src''
        [File ''login.js'' (Some ''x = 1''),
         Dir ''node_modules'' [File ''dep.js'' (Some ''y = 2'')]],
      Dir ''.git'' [File ''config.txt'' (Some ''z'')],
      File ''notes.exe'' (Some ''w'')]"

section \<open>Purpose, objectives and the import key\<close>

text \<open>
  C8.  \<open>get_file_purpose\<close> returns the tag of the first rule of the ordered list whose
  substring occurs in the lowercased file name, and the generic source-file tag when no rule
  matches.  In particular a file name that contains the substring of a manifest rule is
  classified by a manifest rule, never as a test script, whether or not it contains "test".
\<close>

theorem purpose_cascade:
  "get_file_purpose f content = first_rule_tag f \<and>
   (list_ex (\<lambda>(sub, tag). contains sub (lower f)) manifest_rules \<longrightarrow>
      get_file_purpose f content \<in> snd ` set manifest_rules \<and>
      get_file_purpose f content \<noteq> TestScript)"
  by (simp add: get_file_purpose_def first_rule_tag_def purpose_rules_def manifest_rules_def
      Let_def)

theorem purpose_cascade_witness:
  "contains ''test'' (lower ''test-package.json'') \<and>
   list_ex (\<lambda>(sub, tag). contains sub (lower ''test-package.json'')) manifest_rules \<and>
   get_file_purpose ''test-package.json'' '''' = NodeJsDependencies \<and>
   first_rule_tag ''test-package.json'' = NodeJsDependencies"
proof -
  have t: "contains ''test'' (lower ''test-package.json'')"
    by code_simp
  have m: "list_ex (\<lambda>(sub, tag). contains sub (lower ''test-package.json'')) manifest_rules"
    by code_simp
  have v: "first_rule_tag ''test-package.json'' = NodeJsDependencies"
    by code_simp
  from purpose_cascade [of "''test-package.json''" "''''"] t m v show ?thesis
    by simp
qed

text \<open>
  C9.  When the lowercased file name contains "test" or "spec", the objectives of the file's
  record are exactly one tag: the Java/TestNG tag if the content contains \<open>@Test\<close>, else the
  JS/Playwright tag if it contains \<open>test(\<close>, else the automated-script tag.  For every other
  file name the objectives are empty.
\<close>

theorem objectives_one_tag:
  "(contains ''test'' (lower f) \<or> contains ''spec'' (lower f) \<longrightarrow>
      length (objectives (scan_file f content)) = 1 \<and>
      objectives (scan_file f content) =
        [if contains ''@Test'' content then ''Java/TestNG Test''
         else if contains ''test('' content then ''JS/Playwright Test''
         else ''Automated Script'']) \<and>
   (\<not> (contains ''test'' (lower f) \<or> contains ''spec'' (lower f)) \<longrightarrow>
      objectives (scan_file f content) = [])"
  by (simp add: scan_file_def scan_objectives_def)

theorem objectives_one_tag_witness:
  "objectives (scan_file ''LoginTest.java'' ''@Test void login() {}'') = [''Java/TestNG Test''] \<and>
   objectives (scan_file ''login.spec.ts'' ''test(1)'') = [''JS/Playwright Test''] \<and>
   objectives (scan_file ''test_login.py'' ''def f(): pass'') = [''Automated Script''] \<and>
   objectives (scan_file ''main.py'' ''@Test test('') = []"
proof -
  have a: "contains ''test'' (lower ''LoginTest.java'')"
    "contains ''@Test'' ''@Test void login() {}''"
    by code_simp+
  have b: "contains ''spec'' (lower ''login.spec.ts'')" "\<not> contains ''@Test'' ''test(1)''"
    "contains ''test('' ''test(1)''"
    by code_simp+
  have c: "contains ''test'' (lower ''test_login.py'')" "\<not> contains ''@Test'' ''def f(): pass''"
    "\<not> contains ''test('' ''def f(): pass''"
    by code_simp+
  have d: "\<not> (contains ''test'' (lower ''main.py'') \<or> contains ''spec'' (lower ''main.py''))"
    by code_simp
  from objectives_one_tag [of "''LoginTest.java''" "''@Test void login() {}''"]
       objectives_one_tag [of "''login.spec.ts''" "''test(1)''"]
       objectives_one_tag [of "''test_login.py''" "''def f(): pass''"]
       objectives_one_tag [of "''main.py''" "''@Test test(''"]
       a b c d
  show ?thesis by simp
qed

lemma startswith_set: "startswith s p \<Longrightarrow> set p \<subseteq> set s"
  by (induction s p rule: startswith.induct) auto

lemma endswith_set: "endswith s suf \<Longrightarrow> set suf \<subseteq> set s"
  using startswith_set [of "rev s" "rev suf"] by (simp add: endswith_def)

lemma dotless_not_extension: "dot \<notin> set f \<Longrightarrow> \<not> list_ex (endswith f) TEXT_EXTENSIONS"
  by (auto simp add: TEXT_EXTENSIONS_def dot_def dest!: endswith_set)

lemma str_split_no_sep: "sep \<notin> set s \<Longrightarrow> str_split sep s = [s]"
  by (induction s) auto

text \<open>
  C10.  An admitted file whose name contains no dot is \<open>Dockerfile\<close> or \<open>Jenkinsfile\<close>; the key
  looked up in \<open>IMPORT_PATTERNS\<close> is then the whole file name, the table has no such key, and
  the record's \<open>raw_imports\<close> is empty whatever the content.
\<close>

theorem dotless_no_imports:
  assumes "admitted f" and "dot \<notin> set f"
  shows "f \<in> {''Dockerfile'', ''Jenkinsfile''} \<and> import_key f = f \<and>
         map_of IMPORT_PATTERNS (import_key f) = None \<and>
         raw_imports (scan_file f content) = []"
proof -
  from assms have f: "f = ''Dockerfile'' \<or> f = ''Jenkinsfile''"
    using dotless_not_extension [of f] by (auto simp add: admitted_def)
  from assms(2) have k: "import_key f = f"
    by (simp add: import_key_def str_split_no_sep)
  from f have n: "map_of IMPORT_PATTERNS f = None"
    by (auto simp add: IMPORT_PATTERNS_def)
  from f k n show ?thesis
    by (auto simp add: scan_file_def scan_imports_def)
qed

theorem dotless_no_imports_witness:
  "admitted ''Dockerfile'' \<and> dot \<notin> set ''Dockerfile'' \<and>
   import_key ''Dockerfile'' = ''Dockerfile'' \<and>
   raw_imports (scan_file ''Dockerfile'' ''import os'') = []"
proof -
  have a: "admitted ''Dockerfile''"
    by code_simp
  have d: "dot \<notin> set ''Dockerfile''"
    by (simp add: dot_def)
  from dotless_no_imports [OF a d, of "''import os''"] a d show ?thesis
    by simp
qed

section \<open>Import extraction\<close>

text \<open>
  C1 states that the token emitted for a match is its first non-empty captured group.  The
  patterns for \<open>py\<close>, \<open>java\<close> and \<open>groovy\<close> have a single group, so \<open>re.findall\<close> returns
  each match as a \<open>str\<close>, and the first non-empty item of iterating a \<open>str\<close> is its first
  character: for a Python file holding \<open>import os\<close> the token is \<open>o\<close>, not \<open>os\<close>, and for a
  Java file holding \<open>import com.acme.Login;\<close> it is \<open>c\<close>.
\<close>

theorem scan_imports_single_group:
  "findall re_py ''import os'' = [Str ''os''] \<and>
   scan_imports ''a.py'' ''import os'' = [''o''] \<and>
   scan_imports ''Main.java'' ''import com.acme.Login;'' = [''c'']"
  by code_simp

section \<open>Risk findings\<close>

lemma match_at_start: "match_at ic re s p = Some m \<Longrightarrow> m_start m = p"
  by (auto simp add: match_at_def split: list.splits prod.splits)

lemma scan_from_member:
  "m \<in> set (scan_from ic re s lo ps) \<Longrightarrow>
     m_start m \<in> set ps \<and> match_at ic re s (m_start m) = Some m"
proof (induction ps arbitrary: lo)
  case Nil
  then show ?case by simp
next
  case (Cons p ps)
  show ?case
  proof (cases "p < lo")
    case True
    with Cons.prems have "m \<in> set (scan_from ic re s lo ps)" by simp
    from Cons.IH [OF this] show ?thesis by simp
  next
    case False
    show ?thesis
    proof (cases "match_at ic re s p")
      case None
      with False Cons.prems have "m \<in> set (scan_from ic re s lo ps)" by simp
      from Cons.IH [OF this] show ?thesis by simp
    next
      case (Some m')
      with False Cons.prems
      have "m = m' \<or> m \<in> set (scan_from ic re s (if p < m_end m' then m_end m' else Suc p) ps)"
        by simp
      then show ?thesis
      proof
        assume "m = m'"
        with Some match_at_start [OF Some] show ?thesis by simp
      next
        assume "m \<in> set (scan_from ic re s (if p < m_end m' then m_end m' else Suc p) ps)"
        from Cons.IH [OF this] show ?thesis by simp
      qed
    qed
  qed
qed

lemma scan_from_sorted:
  "sorted_wrt (<) ps \<Longrightarrow> sorted_wrt (<) (map m_start (scan_from ic re s lo ps))"
proof (induction ps arbitrary: lo)
  case Nil
  then show ?case by simp
next
  case (Cons p ps)
  from Cons.prems have sp: "sorted_wrt (<) ps" and lt: "\<forall>q \<in> set ps. p < q"
    by simp_all
  have later: "\<forall>m \<in> set (scan_from ic re s lo' ps). p < m_start m" for lo'
    using scan_from_member [of _ ic re s lo' ps] lt by blast
  show ?case
  proof (cases "p < lo")
    case True
    then show ?thesis using Cons.IH [OF sp] by simp
  next
    case False
    show ?thesis
    proof (cases "match_at ic re s p")
      case None
      with False show ?thesis using Cons.IH [OF sp] by simp
    next
      case (Some m')
      with False show ?thesis
        using Cons.IH [OF sp] later match_at_start [OF Some] by simp
    qed
  qed
qed

lemma finditer_sorted: "sorted_wrt (<) (map m_start (finditer ic re s))"
  unfolding finditer_def by (rule scan_from_sorted) (rule sorted_wrt_upt)

lemma finditer_member:
  "m \<in> set (finditer ic re s) \<Longrightarrow>
     m_start m \<le> length s \<and> match_at ic re s (m_start m) = Some m"
  using scan_from_member [of m ic re s 0 "[0..<Suc (length s)]"]
  by (auto simp add: finditer_def)

lemma count_chr_append: "count_chr c (xs @ ys) = count_chr c xs + count_chr c ys"
  by (induction xs) simp_all

lemma count_chr_take:
  "k \<le> length s \<Longrightarrow> count_chr c (take k s) = length (filter (\<lambda>i. s ! i = c) [0..<k])"
proof (induction k)
  case 0
  then show ?case by simp
next
  case (Suc k)
  then have "take (Suc k) s = take k s @ [s ! k]"
    by (simp add: take_Suc_conv_app_nth)
  with Suc show ?case
    by (simp add: count_chr_append)
qed

lemma str_count_newlines:
  "k \<le> length s \<Longrightarrow> str_count s newline 0 k = newlines_before s k"
  by (simp add: str_count_def newlines_before_def count_chr_take)

lemma str_count_mono: "k \<le> k' \<Longrightarrow> str_count s c 0 k \<le> str_count s c 0 k'"
proof -
  assume "k \<le> k'"
  then have "take k' s = take k s @ take (k' - k) (drop k s)"
    using take_add [of k "k' - k" s] by simp
  then show ?thesis
    by (simp add: str_count_def count_chr_append)
qed

lemma foldl_append_one: "foldl (\<lambda>acc m. acc @ [f m]) acc ms = acc @ map f ms"
  by (induction ms arbitrary: acc) simp_all

lemma foldl_risk_patterns:
  "foldl (\<lambda>risks (rname, pat, sev, fx).
            foldl (\<lambda>risks m. risks @ [risk_of content rname sev fx m])
                  risks (finditer True pat content))
         acc pats =
   acc @ concat (map (\<lambda>(rname, pat, sev, fx).
                        map (risk_of content rname sev fx) (finditer True pat content)) pats)"
  (is "foldl ?F acc pats = acc @ concat (map ?G pats)")
proof (induction pats arbitrary: acc)
  case Nil
  then show ?case by simp
next
  case (Cons x pats)
  obtain rname pat sev fx where x: "x = (rname, pat, sev, fx)" by (cases x)
  have step: "?F acc x = acc @ ?G x"
    unfolding x by (simp add: foldl_append_one)
  have "foldl ?F acc (x # pats) = foldl ?F (?F acc x) pats"
    by (rule foldl_Cons)
  also have "\<dots> = ?F acc x @ concat (map ?G pats)"
    by (rule Cons.IH)
  also have "\<dots> = acc @ concat (map ?G (x # pats))"
    by (simp only: step append_assoc list.map concat.simps)
  finally show ?case .
qed

lemma scan_risks_concat:
  "scan_risks content =
     concat (map (\<lambda>(rname, pat, sev, fx).
                    map (risk_of content rname sev fx) (finditer True pat content))
                 RISK_PATTERNS)"
  by (simp add: scan_risks_def foldl_risk_patterns)

lemma risk_lines_sorted:
  "sorted (map (\<lambda>m. r_line (risk_of content rname sev fx m)) (finditer True pat content))"
proof -
  have "sorted_wrt (\<lambda>a b. r_line (risk_of content rname sev fx a)
                         \<le> r_line (risk_of content rname sev fx b))
          (finditer True pat content)"
  proof (rule sorted_wrt_mono_rel)
    show "sorted_wrt (\<lambda>a b. m_start a < m_start b) (finditer True pat content)"
      using finditer_sorted [of True pat content] by (simp add: sorted_wrt_map)
  next
    fix a b :: rmatch_obj
    assume "m_start a < m_start b"
    then show "r_line (risk_of content rname sev fx a) \<le> r_line (risk_of content rname sev fx b)"
      using str_count_mono [of "m_start a" "m_start b" content newline]
      by (simp add: risk_of_def)
  qed
  then show ?thesis by (simp add: sorted_wrt_map)
qed

lemma finditer_password_example:
  "finditer True re_password print_then_password =
     [\<lparr>m_start = 9, m_end = 23, m_groups = [Some ''password'']\<rparr>]"
  by code_simp

lemma finditer_console_example:
  "map m_start (finditer True re_console print_then_password) = [0]"
  by code_simp

lemma scan_risks_example:
  "scan_risks print_then_password =
     [\<lparr>r_type = HardcodedPassword, r_line = 2, r_severity = High,
       r_fix = ''Move to environment variables.''\<rparr>,
      \<lparr>r_type = ConsoleLog, r_line = 1, r_severity = Low, r_fix = ''Use a Logger.''\<rparr>]"
  by code_simp

text \<open>
  C4.  For every entry of the risk catalogue and every match \<open>m\<close> that \<open>re.finditer\<close> reports
  for its pattern in the content, the pattern matches at offset \<open>m_start m\<close> of the content,
  and the finding appended for \<open>m\<close> is among the file's risks and carries the line number
  \<open>n + 1\<close>, where \<open>n\<close> is the number of newline characters before that offset.
\<close>

theorem risk_line_number:
  assumes "(rname, pat, sev, fx) \<in> set RISK_PATTERNS"
    and "m \<in> set (finditer True pat content)"
  shows "m_start m \<le> length content \<and>
         match_at True pat content (m_start m) = Some m \<and>
         \<lparr>r_type = rname, r_line = newlines_before content (m_start m) + 1,
          r_severity = sev, r_fix = fx\<rparr> \<in> set (scan_risks content) \<and>
         risk_of content rname sev fx m =
           \<lparr>r_type = rname, r_line = newlines_before content (m_start m) + 1,
            r_severity = sev, r_fix = fx\<rparr>"
proof -
  from finditer_member [OF assms(2)]
  have le: "m_start m \<le> length content"
    and at: "match_at True pat content (m_start m) = Some m"
    by simp_all
  from le have eq: "risk_of content rname sev fx m =
      \<lparr>r_type = rname, r_line = newlines_before content (m_start m) + 1,
       r_severity = sev, r_fix = fx\<rparr>"
    by (simp add: risk_of_def str_count_newlines)
  have "risk_of content rname sev fx m \<in> set (scan_risks content)"
    unfolding scan_risks_concat using assms by force
  with le at eq show ?thesis by simp
qed

theorem risk_line_number_witness:
  "(HardcodedPassword, re_password, High, ''Move to environment variables.'') \<in> set RISK_PATTERNS \<and>
   \<lparr>m_start = 9, m_end = 23, m_groups = [Some ''password'']\<rparr>
     \<in> set (finditer True re_password print_then_password) \<and>
   newlines_before print_then_password 9 = 1 \<and>
   \<lparr>r_type = HardcodedPassword, r_line = 2, r_severity = High,
    r_fix = ''Move to environment variables.''\<rparr> \<in> set (scan_risks print_then_password)"
proof -
  have p: "(HardcodedPassword, re_password, High, ''Move to environment variables.'')
             \<in> set RISK_PATTERNS"
    by (simp add: RISK_PATTERNS_def)
  have m: "\<lparr>m_start = 9, m_end = 23, m_groups = [Some ''password'']\<rparr>
             \<in> set (finditer True re_password print_then_password)"
    by (simp add: finditer_password_example)
  have n: "newlines_before print_then_password 9 = 1"
    by code_simp
  from risk_line_number [OF p m] n
  have "\<lparr>r_type = HardcodedPassword, r_line = 2, r_severity = High,
    r_fix = ''Move to environment variables.''\<rparr> \<in> set (scan_risks print_then_password)"
    by (simp add: numeral_2_eq_2)
  with p m n show ?thesis by (intro conjI)
qed

text \<open>
  C2, as amended.  The risks of a file are the findings of the first catalogue entry, then
  those of the second, and so on in catalogue order; within one entry the findings follow the
  matches in strictly increasing first character offset, so their line numbers never
  decrease.  Findings of different entries are not merged by offset.
\<close>

theorem risks_grouped_by_category:
  "scan_risks content =
     concat (map (\<lambda>(rname, pat, sev, fx).
                    map (risk_of content rname sev fx) (finditer True pat content))
                 RISK_PATTERNS) \<and>
   (\<forall>(rname, pat, sev, fx) \<in> set RISK_PATTERNS.
      sorted_wrt (<) (map m_start (finditer True pat content)) \<and>
      sorted (map (\<lambda>m. r_line (risk_of content rname sev fx m)) (finditer True pat content)))"
  using scan_risks_concat [of content] finditer_sorted risk_lines_sorted by auto

theorem risks_grouped_by_category_witness:
  "(ConsoleLog, re_console, Low, ''Use a Logger.'') \<in> set RISK_PATTERNS \<and>
   sorted_wrt (<) (map m_start (finditer True re_console two_prints)) \<and>
   map m_start (finditer True re_console two_prints) = [0, 9]"
proof -
  have p: "(ConsoleLog, re_console, Low, ''Use a Logger.'') \<in> set RISK_PATTERNS"
    by (simp add: RISK_PATTERNS_def)
  from risks_grouped_by_category [of two_prints] p
  have s: "sorted_wrt (<) (map m_start (finditer True re_console two_prints))"
    by blast
  have c: "map m_start (finditer True re_console two_prints) = [0, 9]"
    by code_simp
  from p s c show ?thesis by (intro conjI)
qed

text \<open>
  C2 as stated fails: in the text \<open>print(1)\<close>, newline, \<open>password = 'x'\<close> the debug print
  starts at offset 0 and the credential at offset 9, yet the credential finding (line 2) is
  listed before the print finding (line 1).
\<close>

theorem risks_not_in_offset_order:
  "map m_start (finditer True re_console print_then_password) = [0] \<and>
   map m_start (finditer True re_password print_then_password) = [9] \<and>
   map r_type (scan_risks print_then_password) = [HardcodedPassword, ConsoleLog] \<and>
   map r_line (scan_risks print_then_password) = [2, 1] \<and>
   \<not> sorted (map r_line (scan_risks print_then_password))"
  by (simp add: finditer_console_example finditer_password_example scan_risks_example)

section \<open>The walk and the ignored directories\<close>

lemma file_entries_member: "(n, c) \<in> set (file_entries es) \<longleftrightarrow> File n c \<in> set es"
  by (induction es rule: file_entries.induct) auto

lemma reached_root: "reached keep es chain (chain, filter keep (dir_names es), file_entries es)"
  unfolding reached_def
  by (intro exI [of _ "[]"] exI [of _ es]) (simp add: dir_at_root)

lemma reached_sub:
  assumes "Dir n sub \<in> set es" and "keep n" and "reached keep sub (chain @ [n]) item"
  shows "reached keep es chain item"
proof -
  from assms(3) obtain ds listing where
    h: "fst item = (chain @ [n]) @ ds" "\<forall>d \<in> set ds. keep d" "dir_at sub ds listing"
       "fst (snd item) = filter keep (dir_names listing)"
       "snd (snd item) = file_entries listing"
    unfolding reached_def by blast
  from assms(1) h(3) have "dir_at es (n # ds) listing"
    by (rule dir_at_sub)
  with h assms(2) show ?thesis
    unfolding reached_def
    by (intro exI [of _ "n # ds"] exI [of _ listing]) simp
qed

lemma os_walk_reached:
  "\<forall>item \<in> set (os_walk keep chain es). reached keep es chain item"
  "\<forall>item \<in> set (walk_subdirs keep chain es).
     \<exists>n sub. Dir n sub \<in> set es \<and> keep n \<and> reached keep sub (chain @ [n]) item"
proof (induction keep chain es and keep chain es rule: os_walk_walk_subdirs.induct)
  case (1 keep chain es)
  show ?case
  proof
    fix item
    assume "item \<in> set (os_walk keep chain es)"
    then have "item = (chain, filter keep (dir_names es), file_entries es) \<or>
               item \<in> set (walk_subdirs keep chain es)"
      by simp
    then show "reached keep es chain item"
    proof
      assume "item = (chain, filter keep (dir_names es), file_entries es)"
      then show ?thesis by (simp add: reached_root)
    next
      assume "item \<in> set (walk_subdirs keep chain es)"
      with "1.IH" obtain n sub where
        "Dir n sub \<in> set es" "keep n" "reached keep sub (chain @ [n]) item"
        by blast
      then show ?thesis by (rule reached_sub)
    qed
  qed
next
  case (2 keep chain)
  show ?case by simp
next
  case (3 keep chain n c es)
  then show ?case by auto
next
  case (4 keep chain n es)
  then show ?case by auto
next
  case (5 keep chain n sub es)
  show ?case
  proof
    fix item
    assume "item \<in> set (walk_subdirs keep chain (Dir n sub # es))"
    then have "(keep n \<and> item \<in> set (os_walk keep (chain @ [n]) sub)) \<or>
               item \<in> set (walk_subdirs keep chain es)"
      by (auto split: if_splits)
    then show "\<exists>n' sub'. Dir n' sub' \<in> set (Dir n sub # es) \<and> keep n' \<and>
                 reached keep sub' (chain @ [n']) item"
    proof
      assume a: "keep n \<and> item \<in> set (os_walk keep (chain @ [n]) sub)"
      with "5.IH"(1) have "reached keep sub (chain @ [n]) item" by blast
      with a show ?thesis by auto
    next
      assume "item \<in> set (walk_subdirs keep chain es)"
      with "5.IH"(2) obtain n' sub' where
        "Dir n' sub' \<in> set es" "keep n'" "reached keep sub' (chain @ [n']) item"
        by blast
      then show ?thesis by auto
    qed
  qed
qed

lemma dict_set_member: "x \<in> set (dict_set kvs k v) \<Longrightarrow> x \<in> set kvs \<or> x = (k, v)"
  by (induction kvs k v rule: dict_set.induct) (auto split: if_splits)

lemma visit_file_kept:
  assumes "\<forall>x \<in> set fd. from_kept_file es x"
    and "dir_at es chain listing" and "set chain \<inter> set IGNORED = {}"
    and "fe \<in> set (file_entries listing)"
  shows "\<forall>x \<in> set (visit_file chain fd fe). from_kept_file es x"
proof (cases fe)
  case (Pair f opened)
  show ?thesis
  proof (cases "admitted f")
    case False
    with Pair assms(1) show ?thesis by (simp add: visit_file_def)
  next
    case True
    show ?thesis
    proof (cases opened)
      case None
      with Pair assms(1) show ?thesis by (simp add: visit_file_def)
    next
      case (Some content)
      from assms(4) Pair Some have "File f (Some content) \<in> set listing"
        by (simp add: file_entries_member)
      with assms(2,3) True
      have new: "from_kept_file es (rel_path chain f, scan_file f content)"
        unfolding from_kept_file_def by blast
      show ?thesis
      proof
        fix x
        assume "x \<in> set (visit_file chain fd fe)"
        with Pair True Some
        have "x \<in> set (dict_set fd (rel_path chain f) (scan_file f content))"
          by (simp add: visit_file_def)
        from dict_set_member [OF this] assms(1) new show "from_kept_file es x"
          by auto
      qed
    qed
  qed
qed

lemma foldl_visit_file_kept:
  assumes "dir_at es chain listing" and "set chain \<inter> set IGNORED = {}"
  shows "\<forall>x \<in> set fd. from_kept_file es x \<Longrightarrow> set files \<subseteq> set (file_entries listing) \<Longrightarrow>
         \<forall>x \<in> set (foldl (visit_file chain) fd files). from_kept_file es x"
proof (induction files arbitrary: fd)
  case Nil
  then show ?case by simp
next
  case (Cons fe files)
  from Cons.prems have "fe \<in> set (file_entries listing)" by simp
  from visit_file_kept [OF Cons.prems(1) assms this]
  have "\<forall>x \<in> set (visit_file chain fd fe). from_kept_file es x" .
  from Cons.IH [OF this] Cons.prems(2) show ?case by simp
qed

lemma reached_keep_dir:
  assumes "reached keep_dir es [] item"
  shows "set (fst item) \<inter> set IGNORED = {} \<and> set (fst (snd item)) \<inter> set IGNORED = {} \<and>
         (\<exists>listing. dir_at es (fst item) listing \<and> snd (snd item) = file_entries listing)"
proof -
  from assms obtain ds listing where
    h: "fst item = ds" "\<forall>d \<in> set ds. keep_dir d" "dir_at es ds listing"
       "fst (snd item) = filter keep_dir (dir_names listing)"
       "snd (snd item) = file_entries listing"
    unfolding reached_def by auto
  from h(1,2) have "set (fst item) \<inter> set IGNORED = {}"
    by (auto simp add: keep_dir_def)
  moreover from h(4) have "set (fst (snd item)) \<inter> set IGNORED = {}"
    by (auto simp add: keep_dir_def)
  moreover from h(1,3,5)
  have "\<exists>listing. dir_at es (fst item) listing \<and> snd (snd item) = file_entries listing"
    by auto
  ultimately show ?thesis by simp
qed

lemma visit_dir_kept:
  assumes "\<forall>x \<in> set fd. from_kept_file es x" and "reached keep_dir es [] item"
  shows "\<forall>x \<in> set (visit_dir fd item). from_kept_file es x"
proof -
  obtain chain dirs files where item: "item = (chain, dirs, files)" by (cases item)
  from reached_keep_dir [OF assms(2)] item obtain listing where
    c: "set chain \<inter> set IGNORED = {}" and d: "dir_at es chain listing"
    and f: "files = file_entries listing"
    by auto
  from foldl_visit_file_kept [OF d c assms(1), of files] f
  show ?thesis by (simp add: visit_dir_def item)
qed

lemma foldl_visit_dir_kept:
  "\<forall>x \<in> set fd. from_kept_file es x \<Longrightarrow> \<forall>item \<in> set items. reached keep_dir es [] item \<Longrightarrow>
   \<forall>x \<in> set (foldl visit_dir fd items). from_kept_file es x"
proof (induction items arbitrary: fd)
  case Nil
  then show ?case by simp
next
  case (Cons item items)
  from Cons.prems(2) have "reached keep_dir es [] item" by simp
  from visit_dir_kept [OF Cons.prems(1) this]
  have "\<forall>x \<in> set (visit_dir fd item). from_kept_file es x" .
  from Cons.IH [OF this] Cons.prems(2) show ?case by simp
qed

text \<open>
  C7.  The walk below the root never yields a directory with an ignored name on its chain,
  and never leaves an ignored name in \<open>dirs\<close>; every entry of the scanned collection is the
  record of an admitted, readable file that lies in a directory reached through a chain of
  subdirectories none of which has an ignored name.
\<close>

theorem ignored_dirs_pruned:
  "(\<forall>(chain, dirs, files) \<in> set (os_walk keep_dir [] es).
      set chain \<inter> set IGNORED = {} \<and> set dirs \<inter> set IGNORED = {}) \<and>
   (\<forall>(p, r) \<in> set (scan_files (Inr es)).
      \<exists>chain listing f content.
        dir_at es chain listing \<and> File f (Some content) \<in> set listing \<and>
        set chain \<inter> set IGNORED = {} \<and> admitted f \<and>
        p = rel_path chain f \<and> r = scan_file f content)"
proof -
  have w: "\<forall>item \<in> set (os_walk keep_dir [] es). reached keep_dir es [] item"
    by (rule os_walk_reached(1))
  have one: "\<forall>(chain, dirs, files) \<in> set (os_walk keep_dir [] es).
      set chain \<inter> set IGNORED = {} \<and> set dirs \<inter> set IGNORED = {}"
  proof (clarify, rule conjI)
    fix chain dirs files
    assume "(chain, dirs, files) \<in> set (os_walk keep_dir [] es)"
    with w have r: "reached keep_dir es [] (chain, dirs, files)" by blast
    from reached_keep_dir [OF r] show "set chain \<inter> set IGNORED = {}" by simp
    from reached_keep_dir [OF r] show "set dirs \<inter> set IGNORED = {}" by simp
  qed
  have "\<forall>x \<in> set (foldl visit_dir [] (os_walk keep_dir [] es)). from_kept_file es x"
    by (rule foldl_visit_dir_kept [OF _ w]) simp
  then have k: "\<forall>x \<in> set (scan_files (Inr es)). from_kept_file es x"
    by (simp only: scan_files_def sum.case)
  have two: "\<forall>(p, r) \<in> set (scan_files (Inr es)).
      \<exists>chain listing f content.
        dir_at es chain listing \<and> File f (Some content) \<in> set listing \<and>
        set chain \<inter> set IGNORED = {} \<and> admitted f \<and>
        p = rel_path chain f \<and> r = scan_file f content"
  proof (clarify)
    fix p r
    assume "(p, r) \<in> set (scan_files (Inr es))"
    with k have "from_kept_file es (p, r)" by blast
    then show "\<exists>chain listing f content.
        dir_at es chain listing \<and> File f (Some content) \<in> set listing \<and>
        set chain \<inter> set IGNORED = {} \<and> admitted f \<and>
        p = rel_path chain f \<and> r = scan_file f content"
      unfolding from_kept_file_def by blast
  qed
  from one two show ?thesis by (rule conjI)
qed

theorem ignored_dirs_pruned_witness:
  "map fst (os_walk keep_dir [] sample_tree) = [[], [''src'']] \<and>
   map fst (scan_files (Inr sample_tree)) = [''src/login.js''] \<and>
   (\<exists>chain listing f content.
      dir_at sample_tree chain listing \<and> File f (Some content) \<in> set listing \<and>
      set chain \<inter> set IGNORED = {} \<and> admitted f \<and>
      ''src/login.js'' = rel_path chain f \<and>
      scan_file ''login.js'' ''x = 1'' = scan_file f content)"
proof -
  have w: "map fst (os_walk keep_dir [] sample_tree) = [[], [''src'']]"
    by code_simp
  have s: "scan_files (Inr sample_tree) = [(''src/login.js'', scan_file ''login.js'' ''x = 1'')]"
    by code_simp
  then have m: "(''src/login.js'', scan_file ''login.js'' ''x = 1'') \<in> set (scan_files (Inr sample_tree))"
    by simp
  from ignored_dirs_pruned [of sample_tree, THEN conjunct2, THEN bspec, OF m]
  have e: "\<exists>chain listing f content.
      dir_at sample_tree chain listing \<and> File f (Some content) \<in> set listing \<and>
      set chain \<inter> set IGNORED = {} \<and> admitted f \<and>
      ''src/login.js'' = rel_path chain f \<and>
      scan_file ''login.js'' ''x = 1'' = scan_file f content"
    by simp
  from s have k: "map fst (scan_files (Inr sample_tree)) = [''src/login.js'']"
    by simp
  from w k e show ?thesis by (intro conjI)
qed

text \<open>
  C3, as amended.  When listing the root directory raises an error, whatever the error, the
  scan returns the empty collection, the empty edge list and the empty reverse index, exactly
  as for an empty root directory; no error reaches the caller.
\<close>

theorem unlisted_root_like_empty:
  "scan_project (Inl err) = ([], [], Map.empty) \<and> scan_project (Inl err) = scan_project (Inr [])"
  by (simp add: scan_project_def scan_files_def build_graph_def visit_dir_def)

theorem unlisted_root_like_empty_witness:
  "scan_project (Inl PermissionError) = ([], [], Map.empty) \<and>
   scan_project (Inl PermissionError) = scan_project (Inr [])"
  by (rule unlisted_root_like_empty [of PermissionError])

text \<open>C3 as stated fails: a missing root directory gives the empty result.\<close>

theorem missing_root_empty_scan:
  "scan_project (Inl FileNotFoundError) = ([], [], Map.empty)"
  by (simp add: scan_project_def scan_files_def build_graph_def)

section \<open>Edges and the reverse index\<close>

lemma str_split_not_Nil: "str_split sep s \<noteq> []"
  by (induction s) (auto split: list.splits)

lemma str_split_sep_long: "sep \<in> set s \<Longrightarrow> \<exists>w v vs. str_split sep s = w # v # vs"
proof (induction s)
  case Nil
  then show ?case by simp
next
  case (Cons c cs)
  show ?case
  proof (cases "c = sep")
    case True
    obtain v vs where "str_split sep cs = v # vs"
      using str_split_not_Nil [of sep cs] by (cases "str_split sep cs") auto
    with True show ?thesis by simp
  next
    case False
    with Cons.prems have "sep \<in> set cs" by simp
    from Cons.IH [OF this] obtain w v vs where "str_split sep cs = w # v # vs" by blast
    with False show ?thesis by simp
  qed
qed

lemma after_last_no_sep: "sep \<notin> set s \<Longrightarrow> after_last sep s = s"
proof -
  assume a: "sep \<notin> set s"
  have h: "takeWhile (\<lambda>c. c \<noteq> sep) (rev s) = rev s"
    by (rule takeWhile_eq_all_conv [THEN iffD2]) (use a in auto)
  show ?thesis unfolding after_last_def h by simp
qed

lemma after_last_Cons_in: "sep \<in> set cs \<Longrightarrow> after_last sep (c # cs) = after_last sep cs"
proof -
  assume a: "sep \<in> set cs"
  have "takeWhile (\<lambda>c. c \<noteq> sep) (rev cs @ [c]) = takeWhile (\<lambda>c. c \<noteq> sep) (rev cs)"
    by (rule takeWhile_append1 [of sep]) (use a in auto)
  then show ?thesis by (simp add: after_last_def)
qed

lemma after_last_Cons_sep: "sep \<notin> set cs \<Longrightarrow> after_last sep (sep # cs) = cs"
proof -
  assume a: "sep \<notin> set cs"
  have "takeWhile (\<lambda>c. c \<noteq> sep) (rev cs @ [sep]) = rev cs @ takeWhile (\<lambda>c. c \<noteq> sep) [sep]"
    by (rule takeWhile_append2) (use a in auto)
  then show ?thesis by (simp add: after_last_def)
qed

lemma last_str_split: "last (str_split sep s) = after_last sep s"
proof (induction s)
  case Nil
  then show ?case by (simp add: after_last_def)
next
  case (Cons c cs)
  show ?case
  proof (cases "sep \<in> set cs")
    case True
    from str_split_sep_long [OF True] obtain w v vs where sp: "str_split sep cs = w # v # vs"
      by blast
    with Cons.IH True show ?thesis
      by (simp add: after_last_Cons_in)
  next
    case False
    then have sp: "str_split sep cs = [cs]"
      by (simp add: str_split_no_sep)
    show ?thesis
    proof (cases "c = sep")
      case True
      with sp False show ?thesis by (simp add: after_last_Cons_sep)
    next
      case c: False
      with False have "sep \<notin> set (c # cs)" by auto
      from after_last_no_sep [OF this] sp c show ?thesis by simp
    qed
  qed
qed

lemma add_import_eq:
  "add_import src (es, ub) imp =
     (if long_token imp
      then (es @ [edge_of src imp],
            ub(after_last slash imp \<mapsto>
                 insert src (case ub (after_last slash imp) of None \<Rightarrow> {} | Some users \<Rightarrow> users)))
      else (es, ub))"
  by (simp add: add_import_def long_token_def edge_of_def basename_def last_str_split Let_def)

lemma add_import_short: "\<not> long_token imp \<Longrightarrow> add_import src acc imp = acc"
  by (cases acc) (simp add: add_import_eq)

lemma fst_foldl_add_import:
  "fst (foldl (add_import src) acc imps) = fst acc @ map (edge_of src) (filter long_token imps)"
proof (induction imps arbitrary: acc)
  case Nil
  then show ?case by simp
next
  case (Cons imp imps)
  obtain es ub where acc: "acc = (es, ub)" by (cases acc)
  show ?case unfolding acc by (simp add: add_import_eq Cons.IH)
qed

lemma fst_foldl_files:
  "fst (foldl (\<lambda>acc (src, data). foldl (add_import src) acc (raw_imports data)) acc fd) =
     fst acc @ concat (map (\<lambda>(src, data). map (edge_of src) (filter long_token (raw_imports data))) fd)"
proof (induction fd arbitrary: acc)
  case Nil
  then show ?case by simp
next
  case (Cons x fd)
  obtain src data where x: "x = (src, data)" by (cases x)
  show ?case unfolding x by (simp add: Cons.IH fst_foldl_add_import)
qed

lemma build_graph_edges:
  "fst (build_graph fd) =
     concat (map (\<lambda>(src, data). map (edge_of src) (filter long_token (raw_imports data))) fd)"
  by (simp add: build_graph_def fst_foldl_files)

lemma length_edges_concat:
  "length (concat (map (\<lambda>(src, data). map (edge_of src) (filter long_token (raw_imports data))) fd)) =
     sum_list (map (\<lambda>(src, data). length (filter long_token (raw_imports data))) fd)"
  by (induction fd) auto

lemma targets_long_add_import: "targets_long acc \<Longrightarrow> targets_long (add_import src acc imp)"
proof -
  assume a: "targets_long acc"
  obtain es ub where acc: "acc = (es, ub)" by (cases acc)
  from a show ?thesis unfolding acc
    by (auto simp add: add_import_eq targets_long_def long_token_def edge_of_def)
qed

lemma targets_long_foldl_imports:
  "targets_long acc \<Longrightarrow> targets_long (foldl (add_import src) acc imps)"
  by (induction imps arbitrary: acc) (simp_all add: targets_long_add_import)

lemma targets_long_foldl_files:
  "targets_long acc \<Longrightarrow>
   targets_long (foldl (\<lambda>acc (src, data). foldl (add_import src) acc (raw_imports data)) acc fd)"
proof (induction fd arbitrary: acc)
  case Nil
  then show ?case by simp
next
  case (Cons x fd)
  obtain src data where x: "x = (src, data)" by (cases x)
  from Cons.prems show ?case unfolding x
    by (simp add: Cons.IH targets_long_foldl_imports)
qed

lemma targets_long_build_graph: "targets_long (build_graph fd)"
  unfolding build_graph_def by (rule targets_long_foldl_files) (simp add: targets_long_def)

text \<open>
  C5.  Let the final path segment of a raw import token have at most one character.  Then
  dropping the token from the \<open>raw_imports\<close> of any file of any collection leaves the edge
  list and the reverse index unchanged; and no graph has an edge whose target is that
  segment or a reverse-index key equal to it.
\<close>

theorem short_token_no_entry:
  assumes "length (after_last slash imp) \<le> 1"
  shows "build_graph (pre @ (src, d\<lparr>raw_imports := xs @ imp # ys\<rparr>) # post) =
           build_graph (pre @ (src, d\<lparr>raw_imports := xs @ ys\<rparr>) # post) \<and>
         (\<forall>e \<in> set (fst (build_graph files_data)). e_target e \<noteq> after_last slash imp) \<and>
         after_last slash imp \<notin> dom (snd (build_graph files_data))"
proof -
  from assms have s: "\<not> long_token imp"
    by (simp add: long_token_def)
  have one: "build_graph (pre @ (src, d\<lparr>raw_imports := xs @ imp # ys\<rparr>) # post) =
          build_graph (pre @ (src, d\<lparr>raw_imports := xs @ ys\<rparr>) # post)"
    by (simp add: build_graph_def add_import_short [OF s])
  from targets_long_build_graph [of files_data]
  have e: "\<forall>e \<in> set (fst (build_graph files_data)). 1 < length (e_target e)"
    and k: "\<forall>t \<in> dom (snd (build_graph files_data)). 1 < length t"
    by (simp_all add: targets_long_def)
  from e assms have two: "\<forall>e \<in> set (fst (build_graph files_data)). e_target e \<noteq> after_last slash imp"
    by auto
  have three: "after_last slash imp \<notin> dom (snd (build_graph files_data))"
  proof
    assume "after_last slash imp \<in> dom (snd (build_graph files_data))"
    with k have "1 < length (after_last slash imp)" by (rule bspec)
    with assms show False by simp
  qed
  from one two three show ?thesis by simp
qed

theorem short_token_no_entry_witness:
  "length (after_last slash ''./a'') \<le> 1 \<and>
   build_graph [(''src/login.js'', login_js\<lparr>raw_imports := [''./a'', ''../utils/auth'']\<rparr>)] =
     build_graph [(''src/login.js'', login_js\<lparr>raw_imports := [''../utils/auth'']\<rparr>)] \<and>
   after_last slash ''./a'' \<notin> dom (snd (build_graph [(''src/login.js'', login_js)])) \<and>
   fst (build_graph [(''src/login.js'', login_js)]) =
     [\<lparr>e_source = ''login.js'', e_target = ''auth''\<rparr>,
      \<lparr>e_source = ''login.js'', e_target = ''auth''\<rparr>]"
proof -
  have h: "length (after_last slash ''./a'') \<le> 1"
    by code_simp
  note t = short_token_no_entry [where imp = "''./a''" and pre = "[]" and src = "''src/login.js''"
      and d = login_js and xs = "[]" and ys = "[''../utils/auth'']"
      and post = "[]" and files_data = "[(''src/login.js'', login_js)]", OF h]
  from t have p1:
    "build_graph [(''src/login.js'', login_js\<lparr>raw_imports := [''./a'', ''../utils/auth'']\<rparr>)] =
     build_graph [(''src/login.js'', login_js\<lparr>raw_imports := [''../utils/auth'']\<rparr>)]"
    by simp
  from t have p2: "after_last slash ''./a'' \<notin> dom (snd (build_graph [(''src/login.js'', login_js)]))"
    by simp
  have v: "fst (build_graph [(''src/login.js'', login_js)]) =
     [\<lparr>e_source = ''login.js'', e_target = ''auth''\<rparr>,
      \<lparr>e_source = ''login.js'', e_target = ''auth''\<rparr>]"
    by code_simp
  from h p1 p2 v show ?thesis
    by (intro conjI)
qed

text \<open>
  C6.  The number of edges equals the number of raw import entries, summed over all records
  of the collection, whose final path segment has more than one character; repeated tokens
  count each time.
\<close>

theorem edge_count:
  "length (fst (build_graph files_data)) =
     sum_list (map (\<lambda>(src, data). length (filter long_token (raw_imports data))) files_data)"
  by (simp only: build_graph_edges length_edges_concat)

theorem edge_count_witness:
  "length (fst (build_graph [(''src/login.js'', login_js), (''b.js'', login_js)])) = 4 \<and>
   map (\<lambda>(src, data). length (filter long_token (raw_imports data)))
       [(''src/login.js'', login_js), (''b.js'', login_js)] = [2, 2]"
proof -
  have c: "map (\<lambda>(src, data). length (filter long_token (raw_imports data)))
       [(''src/login.js'', login_js), (''b.js'', login_js)] = [2, 2]"
    by code_simp
  from edge_count [of "[(''src/login.js'', login_js), (''b.js'', login_js)]"] c
  show ?thesis by simp
qed

section \<open>Import tokens and the number of groups\<close>

lemma star_m_caps:
  assumes "\<And>st st'. st' \<in> set (f st) \<Longrightarrow> length (snd (snd st')) = length (snd (snd st))"
  shows "st' \<in> set (star_m f n st) \<Longrightarrow> length (snd (snd st')) = length (snd (snd st))"
proof (induction n arbitrary: st)
  case 0
  then show ?case by simp
next
  case (Suc n)
  from Suc.prems consider (stop) "st' = st"
    | (more) mid where "mid \<in> set (f st)" "st' \<in> set (star_m f n mid)"
    by (auto split: if_splits)
  then show ?case
  proof cases
    case stop
    then show ?thesis by simp
  next
    case more
    from Suc.IH [OF more(2)] assms [OF more(1)] show ?thesis by simp
  qed
qed

lemma rmatch_caps:
  "st' \<in> set (rmatch ic re st) \<Longrightarrow> length (snd (snd st')) = length (snd (snd st))"
proof (induction re arbitrary: st st')
  case Eps
  then show ?case by simp
next
  case Bol
  then show ?case by (cases st) (auto split: if_splits)
next
  case (Lit c)
  then show ?case by (cases st) (auto split: list.splits if_splits)
next
  case (Cls neg items)
  then show ?case by (cases st) (auto split: list.splits if_splits)
next
  case (Seq a b)
  from Seq.prems obtain mid where "mid \<in> set (rmatch ic a st)" "st' \<in> set (rmatch ic b mid)"
    by auto
  with Seq.IH show ?case by fastforce
next
  case (Alt a b)
  from Alt.prems have "st' \<in> set (rmatch ic a st) \<or> st' \<in> set (rmatch ic b st)"
    by simp
  with Alt.IH show ?case by blast
next
  case (Star r)
  obtain pos rest caps where st: "st = (pos, rest, caps)" by (cases st)
  from Star.prems have "st' \<in> set (star_m (rmatch ic r) (length rest) st)"
    by (simp add: st)
  from star_m_caps [of "rmatch ic r", OF Star.IH this] show ?case .
next
  case (Grp g r)
  obtain pos rest caps where st: "st = (pos, rest, caps)" by (cases st)
  from Grp.prems obtain mid where m: "mid \<in> set (rmatch ic r st)"
    and s: "st' = (fst mid, fst (snd mid),
                   (snd (snd mid))[g := Some (take (fst mid - pos) rest)])"
    by (auto simp add: st)
  from Grp.IH [OF m] s show ?case by simp
qed

lemma match_at_groups: "match_at ic re s p = Some m \<Longrightarrow> length (m_groups m) = ngroups re"
proof -
  assume a: "match_at ic re s p = Some m"
  then obtain e rest caps alternatives where
    r: "rmatch ic re (p, drop p s, replicate (ngroups re) None) = (e, rest, caps) # alternatives"
    and m: "m = \<lparr>m_start = p, m_end = e, m_groups = caps\<rparr>"
    by (auto simp add: match_at_def split: list.splits)
  from r have "(e, rest, caps) \<in> set (rmatch ic re (p, drop p s, replicate (ngroups re) None))"
    by simp
  from rmatch_caps [OF this] m show ?thesis by simp
qed

lemma first_truthy_Str: "first_truthy (Str s) = Some imp \<Longrightarrow> length imp = 1"
proof -
  assume "first_truthy (Str s) = Some imp"
  then have "imp \<in> set (map (\<lambda>c. [c]) s)"
    by (auto simp add: first_truthy_def find_Some_iff)
  then show ?thesis by auto
qed

lemma foldl_imports_tokens:
  "tok \<in> set (foldl (\<lambda>imports m.
                   (case first_truthy m of
                      None \<Rightarrow> imports
                    | Some imp \<Rightarrow> if imp \<noteq> [] then imports @ [imp] else imports))
                acc items) \<Longrightarrow>
   tok \<in> set acc \<or> (\<exists>m \<in> set items. first_truthy m = Some tok)"
proof (induction items arbitrary: acc)
  case Nil
  then show ?case by simp
next
  case (Cons m items)
  from Cons.IH [OF Cons.prems [simplified]] show ?case
    by (auto split: option.splits if_splits)
qed

lemma single_group_item:
  assumes "ngroups pat = 1" and "item \<in> set (findall pat content)"
  shows "\<exists>s. item = Str s"
proof -
  from assms(2) obtain m where m: "m \<in> set (finditer False pat content)"
    and i: "item = findall_item_of content m"
    by (auto simp add: findall_def)
  from finditer_member [OF m] have "match_at False pat content (m_start m) = Some m"
    by simp
  from match_at_groups [OF this] assms(1) have "length (m_groups m) = 1"
    by simp
  then obtain g where "m_groups m = [g]"
    by (cases "m_groups m") auto
  with i show ?thesis by (simp add: findall_item_of_def)
qed

text \<open>
  The general form of the defect shown for C1: for a file whose key selects a pattern with
  exactly one capturing group (\<open>py\<close>, \<open>java\<close> and \<open>groovy\<close>), every raw import token is a
  single character, whatever the content.
\<close>

theorem single_group_tokens:
  assumes "map_of IMPORT_PATTERNS (import_key f) = Some pat" and "ngroups pat = 1"
  shows "\<forall>tok \<in> set (scan_imports f content). length tok = 1"
proof
  fix tok
  assume "tok \<in> set (scan_imports f content)"
  with assms(1) have "tok \<in> set [] \<or> (\<exists>m \<in> set (findall pat content). first_truthy m = Some tok)"
    by (simp only: scan_imports_def option.case) (rule foldl_imports_tokens)
  then obtain item where it: "item \<in> set (findall pat content)" and ft: "first_truthy item = Some tok"
    by auto
  from single_group_item [OF assms(2) it] obtain s where "item = Str s" by blast
  with ft show "length tok = 1" by (simp add: first_truthy_Str)
qed

lemma single_group_keys:
  "import_key f \<in> {''py'', ''java'', ''groovy''} \<Longrightarrow>
     \<exists>pat. map_of IMPORT_PATTERNS (import_key f) = Some pat \<and> ngroups pat = 1"
proof -
  have "ngroups re_py = 1" "ngroups re_java = 1" "ngroups re_groovy = 1"
    by code_simp+
  moreover assume "import_key f \<in> {''py'', ''java'', ''groovy''}"
  ultimately show ?thesis
    by (auto simp add: IMPORT_PATTERNS_def)
qed


theorem single_group_tokens_witness:
  "map_of IMPORT_PATTERNS (import_key ''a.py'') = Some re_py \<and> ngroups re_py = 1 \<and>
   scan_imports ''a.py'' ''import os'' = [''o''] \<and>
   length (hd (scan_imports ''a.py'' ''import os'')) = 1"
proof -
  have k: "map_of IMPORT_PATTERNS (import_key ''a.py'') = Some re_py"
    by code_simp
  have n: "ngroups re_py = 1"
    by code_simp
  have v: "scan_imports ''a.py'' ''import os'' = [''o'']"
    by code_simp
  from single_group_tokens [OF k n, of "''import os''"] v
  have "length (hd (scan_imports ''a.py'' ''import os'')) = 1"
    by simp
  with k n v show ?thesis by (intro conjI)
qed

lemma first_truthy_nonempty: "first_truthy item = Some imp \<Longrightarrow> imp \<noteq> []"
  by (auto simp add: first_truthy_def find_Some_iff)

lemma foldl_imports_eq:
  "foldl (\<lambda>imports m.
            (case first_truthy m of
               None \<Rightarrow> imports
             | Some imp \<Rightarrow> if imp \<noteq> [] then imports @ [imp] else imports))
         acc items =
   acc @ concat (map (\<lambda>m. case first_truthy m of None \<Rightarrow> [] | Some imp \<Rightarrow> [imp]) items)"
proof (induction items arbitrary: acc)
  case Nil
  then show ?case by simp
next
  case (Cons m items)
  show ?case
  proof (cases "first_truthy m")
    case None
    then show ?thesis by (simp add: Cons.IH)
  next
    case (Some imp)
    with first_truthy_nonempty [OF Some] show ?thesis by (simp add: Cons.IH)
  qed
qed

lemma multi_group_item:
  assumes "2 \<le> ngroups pat" and "m \<in> set (finditer False pat content)"
  shows "findall_item_of content m = Tup (map group_text (m_groups m))"
proof -
  from finditer_member [OF assms(2)] have "match_at False pat content (m_start m) = Some m"
    by simp
  from match_at_groups [OF this] assms(1) have "2 \<le> length (m_groups m)"
    by simp
  then obtain g g' gs where "m_groups m = g # g' # gs"
    by (cases "m_groups m"; cases "tl (m_groups m)") auto
  then show ?thesis by (simp add: findall_item_of_def)
qed

text \<open>
  For a file whose key selects a pattern with two or more capturing groups (\<open>ts\<close> and \<open>js\<close>),
  the raw imports are, match by match in the order of the matches, the text of the first
  non-empty group; a match whose groups are all empty adds nothing.
\<close>

theorem multi_group_tokens:
  assumes "map_of IMPORT_PATTERNS (import_key f) = Some pat" and "2 \<le> ngroups pat"
  shows "scan_imports f content =
           concat (map (\<lambda>m. case find (\<lambda>x. x \<noteq> []) (map group_text (m_groups m)) of
                               None \<Rightarrow> []
                             | Some imp \<Rightarrow> [imp])
                       (finditer False pat content))"
proof -
  have "map (\<lambda>m. case first_truthy m of None \<Rightarrow> [] | Some imp \<Rightarrow> [imp]) (findall pat content) =
        map (\<lambda>m. case find (\<lambda>x. x \<noteq> []) (map group_text (m_groups m)) of
                    None \<Rightarrow> [] | Some imp \<Rightarrow> [imp])
            (finditer False pat content)"
    unfolding findall_def map_map
  proof (rule map_cong [OF refl])
    fix m
    assume "m \<in> set (finditer False pat content)"
    from multi_group_item [OF assms(2) this]
    show "((\<lambda>m. case first_truthy m of None \<Rightarrow> [] | Some imp \<Rightarrow> [imp]) \<circ> findall_item_of content) m =
          (case find (\<lambda>x. x \<noteq> []) (map group_text (m_groups m)) of
             None \<Rightarrow> [] | Some imp \<Rightarrow> [imp])"
      by (simp add: first_truthy_def)
  qed
  with assms(1) show ?thesis
    by (simp add: scan_imports_def foldl_imports_eq)
qed

theorem multi_group_tokens_witness:
  "map_of IMPORT_PATTERNS (import_key ''login.js'') = Some re_ecma \<and> 2 \<le> ngroups re_ecma \<and>
   map m_groups (finditer False re_ecma (''require('' @ [CHR 0x27] @ ''./b/c'' @ [CHR 0x27] @ '')''))
     = [[None, Some ''./b/c'']] \<and>
   scan_imports ''login.js'' (''require('' @ [CHR 0x27] @ ''./b/c'' @ [CHR 0x27] @ '')'') = [''./b/c'']"
proof -
  have k: "map_of IMPORT_PATTERNS (import_key ''login.js'') = Some re_ecma"
    by code_simp
  have n: "2 \<le> ngroups re_ecma"
    by code_simp
  have g: "map m_groups (finditer False re_ecma (''require('' @ [CHR 0x27] @ ''./b/c'' @ [CHR 0x27] @ '')''))
     = [[None, Some ''./b/c'']]"
    by code_simp
  then obtain m where
    f: "finditer False re_ecma (''require('' @ [CHR 0x27] @ ''./b/c'' @ [CHR 0x27] @ '')'') = [m]"
    and mg: "m_groups m = [None, Some ''./b/c'']"
    by auto
  from multi_group_tokens [OF k n, of "''require('' @ [CHR 0x27] @ ''./b/c'' @ [CHR 0x27] @ '')''"] f mg
  have "scan_imports ''login.js'' (''require('' @ [CHR 0x27] @ ''./b/c'' @ [CHR 0x27] @ '')'') = [''./b/c'']"
    by (simp add: group_text_def)
  with k n g show ?thesis by (intro conjI)
qed

end
